theory Spec2Isabelle
  imports Main Complex_Main "HOL-Library.Word"
begin

unbundle bit_operations_syntax

section \<open>Common types (common/types.hpp)\<close>

text \<open>
  \<^verbatim>\<open>Quantity\<close>, \<^verbatim>\<open>OrderId\<close> and \<^verbatim>\<open>Timestamp\<close> are \<^verbatim>\<open>uint64_t\<close>: 64-bit words, whose
  arithmetic wraps. \<^verbatim>\<open>Price\<close> and the positions are \<^verbatim>\<open>int64_t\<close>: signed overflow is
  undefined behaviour in the source, so the model computes with the exact integer and
  only compares, adds and subtracts it.
\<close>

type_synonym Price = int
type_synonym Quantity = "64 word"
type_synonym OrderId = "64 word"
type_synonym InstrumentId = "32 word"
type_synonym ExchangeId = "8 word"
type_synonym Timestamp = "64 word"

definition PRICE_SCALE :: int where
  "PRICE_SCALE = 100"

definition MAX_INSTRUMENTS :: nat where
  "MAX_INSTRUMENTS = 256"

definition PRICE_MAX :: Price where
  "PRICE_MAX = 9223372036854775807"

datatype Side = Buy | Sell

datatype OrderType = Limit | Market | IOC | FOK

datatype OrderStatus = New | PartiallyFilled | Filled | Cancelled | Rejected

record OrderRequest =
  req_id :: OrderId
  req_instrument :: InstrumentId
  req_side :: Side
  req_type :: OrderType
  req_price :: Price
  req_quantity :: Quantity
  req_exchange :: ExchangeId
  req_timestamp :: Timestamp

section \<open>Position tracker (risk/position_tracker.hpp, position_tracker.cpp)\<close>

text \<open>
  A \<^verbatim>\<open>double\<close> is modelled as a real number, and every floating-point operation as the
  exact operation followed by a rounding function \<open>rnd\<close>, which the functions below take
  as a parameter. The theorems that depend on a computed value assume of \<open>rnd\<close> only the
  relative error bound of round-to-nearest binary64 on its normal range.
\<close>

text \<open>Field names carry the record's prefix in place of the source's trailing underscore.\<close>

record PositionTracker =
  pt_positions :: "int list"
  pt_avg_prices :: "real list"
  pt_mark_prices :: "Price list"
  pt_instrument_pnl :: "real list"
  pt_realized_pnl :: real

definition tracker_reset :: PositionTracker where
  "tracker_reset =
     \<lparr> pt_positions = replicate MAX_INSTRUMENTS 0,
       pt_avg_prices = replicate MAX_INSTRUMENTS 0,
       pt_mark_prices = replicate MAX_INSTRUMENTS 0,
       pt_instrument_pnl = replicate MAX_INSTRUMENTS 0,
       pt_realized_pnl = 0 \<rparr>"

definition position :: "PositionTracker \<Rightarrow> InstrumentId \<Rightarrow> int" where
  "position t instrument =
     (if unat instrument \<ge> MAX_INSTRUMENTS then 0 else pt_positions t ! unat instrument)"

definition total_absolute_position :: "PositionTracker \<Rightarrow> int" where
  "total_absolute_position t =
     fold (\<lambda>i total. total + \<bar>pt_positions t ! i\<bar>) [0..<MAX_INSTRUMENTS] 0"

definition capital_used :: "(real \<Rightarrow> real) \<Rightarrow> PositionTracker \<Rightarrow> real" where
  "capital_used rnd t =
     fold (\<lambda>i capital.
            if pt_positions t ! i \<noteq> 0 then
              (let price = (if pt_mark_prices t ! i > 0
                            then rnd (rnd (real_of_int (pt_mark_prices t ! i)) / real_of_int PRICE_SCALE)
                            else pt_avg_prices t ! i)
               in rnd (capital + rnd (\<bar>rnd (real_of_int (pt_positions t ! i))\<bar> * price)))
            else capital)
          [0..<MAX_INSTRUMENTS] 0"

section \<open>Risk gate (risk/risk_manager.hpp, risk_manager.cpp)\<close>

datatype RiskCheckResult =
  Approved | KillSwitchActive | PositionLimitBreached | CapitalLimitBreached
  | OrderSizeTooLarge | OrderRateExceeded | FatFingerPrice

record RiskLimits =
  max_position_per_instrument :: int
  max_total_position :: int
  max_capital :: real
  max_order_size :: Quantity
  max_orders_per_second :: "32 word"
  max_price_deviation_pct :: real
  max_drawdown_pct :: real

record RiskManager =
  rm_limits :: RiskLimits
  rm_positions :: PositionTracker
  rm_kill_switch :: bool
  rm_price_deviation_threshold :: real
  rm_order_count_in_window :: "32 word"
  rm_rate_window_start :: Timestamp
  rm_peak_pnl :: real
  rm_max_drawdown_threshold :: real
  rm_checks_performed :: "64 word"
  rm_checks_rejected :: "64 word"

definition update_precomputed :: "(real \<Rightarrow> real) \<Rightarrow> RiskManager \<Rightarrow> RiskManager" where
  "update_precomputed rnd m =
     m\<lparr> rm_price_deviation_threshold := rnd (max_price_deviation_pct (rm_limits m) / 100),
        rm_max_drawdown_threshold := rnd (max_drawdown_pct (rm_limits m) / 100) \<rparr>"

text \<open>The constructor; \<open>now\<close> is the value \<^verbatim>\<open>now_ns()\<close> returns.\<close>

definition new_RiskManager :: "(real \<Rightarrow> real) \<Rightarrow> Timestamp \<Rightarrow> RiskLimits \<Rightarrow> RiskManager" where
  "new_RiskManager rnd now limits =
     (update_precomputed rnd
        \<lparr> rm_limits = limits, rm_positions = tracker_reset, rm_kill_switch = False,
          rm_price_deviation_threshold = 0, rm_order_count_in_window = 0,
          rm_rate_window_start = 0, rm_peak_pnl = 0, rm_max_drawdown_threshold = 0,
          rm_checks_performed = 0, rm_checks_rejected = 0 \<rparr>)
       \<lparr> rm_rate_window_start := now \<rparr>"

definition activate_kill_switch :: "RiskManager \<Rightarrow> RiskManager" where
  "activate_kill_switch m = m\<lparr> rm_kill_switch := True \<rparr>"

definition set_peak_pnl :: "real \<Rightarrow> RiskManager \<Rightarrow> RiskManager" where
  "set_peak_pnl peak m = m\<lparr> rm_peak_pnl := peak \<rparr>"

definition ONE_SECOND_NS :: Timestamp where
  "ONE_SECOND_NS = 1000000000"

definition reject :: "RiskCheckResult \<Rightarrow> RiskManager \<Rightarrow> RiskCheckResult \<times> RiskManager" where
  "reject r m = (r, m\<lparr> rm_checks_rejected := rm_checks_rejected m + 1 \<rparr>)"

text \<open>
  \<^verbatim>\<open>check_order\<close>: the six checks in the order of the source. \<open>now\<close> is the value
  \<^verbatim>\<open>now_ns()\<close> returns in the rate check.
\<close>

definition check_order ::
  "(real \<Rightarrow> real) \<Rightarrow> Timestamp \<Rightarrow> OrderRequest \<Rightarrow> Price \<Rightarrow> RiskManager
     \<Rightarrow> RiskCheckResult \<times> RiskManager" where
  "check_order rnd now request current_market_price m0 =
     (let m = m0\<lparr> rm_checks_performed := rm_checks_performed m0 + 1 \<rparr> in
      if rm_kill_switch m then reject KillSwitchActive m
      else if req_quantity request > max_order_size (rm_limits m) then reject OrderSizeTooLarge m
      else
        let current_pos = position (rm_positions m) (req_instrument request);
            signed_qty = sint (req_quantity request);
            new_pos = (if req_side request = Buy then current_pos + signed_qty
                       else current_pos - signed_qty)
        in
        if \<bar>new_pos\<bar> > max_position_per_instrument (rm_limits m)
        then reject PositionLimitBreached m
        else
          let total = total_absolute_position (rm_positions m);
              delta = \<bar>new_pos\<bar> - \<bar>current_pos\<bar>
          in
          if total + delta > max_total_position (rm_limits m)
          then reject PositionLimitBreached m
          else
            let capital = capital_used rnd (rm_positions m);
                order_value =
                  rnd (rnd (rnd (real (unat (req_quantity request)))
                            * rnd (real_of_int (req_price request)))
                       / real_of_int PRICE_SCALE)
            in
            if rnd (capital + order_value) > max_capital (rm_limits m)
            then reject CapitalLimitBreached m
            else
              let m1 = (if now - rm_rate_window_start m \<ge> ONE_SECOND_NS
                        then m\<lparr> rm_rate_window_start := now, rm_order_count_in_window := 0 \<rparr>
                        else m);
                  m2 = m1\<lparr> rm_order_count_in_window := rm_order_count_in_window m1 + 1 \<rparr>
              in
              if rm_order_count_in_window m2 > max_orders_per_second (rm_limits m2)
              then reject OrderRateExceeded m2
              else if current_market_price > 0 then
                (let price_diff = \<bar>req_price request - current_market_price\<bar>;
                     diff_d = rnd (real_of_int price_diff);
                     market_d = rnd (real_of_int current_market_price)
                 in
                 if diff_d > rnd (market_d * rm_price_deviation_threshold m2)
                 then reject FatFingerPrice m2
                 else (Approved, m2))
              else (Approved, m2))"

definition on_pnl_update :: "(real \<Rightarrow> real) \<Rightarrow> real \<Rightarrow> RiskManager \<Rightarrow> RiskManager" where
  "on_pnl_update rnd total_pnl m0 =
     (let m = (if total_pnl > rm_peak_pnl m0 then m0\<lparr> rm_peak_pnl := total_pnl \<rparr> else m0) in
      if rm_peak_pnl m > 0 then
        (let drawdown = rnd (rnd (rm_peak_pnl m - total_pnl) / rm_peak_pnl m) in
         if drawdown > rm_max_drawdown_threshold m then activate_kill_switch m else m)
      else m)"

text \<open>
  The relative error bound of round-to-nearest binary64 on the normal range, the only
  property of the rounding that the theorems below use.
\<close>

definition binary64_rounding :: "(real \<Rightarrow> real) \<Rightarrow> bool" where
  "binary64_rounding rnd \<longleftrightarrow>
     (\<forall>x. 1 / 2 ^ 1022 \<le> \<bar>x\<bar> \<and> \<bar>x\<bar> \<le> 2 ^ 1023 \<longrightarrow> \<bar>rnd x - x\<bar> \<le> \<bar>x\<bar> / 2 ^ 53)"

text \<open>The limits of the unit tests' fixture (tests/unit/test\_risk\_manager.cpp).\<close>

definition test_limits :: RiskLimits where
  "test_limits =
     \<lparr> max_position_per_instrument = 1000, max_total_position = 5000,
       max_capital = 1000000, max_order_size = 500, max_orders_per_second = 100,
       max_price_deviation_pct = 5, max_drawdown_pct = 2 \<rparr>"

definition make_order :: "Quantity \<Rightarrow> Price \<Rightarrow> Side \<Rightarrow> OrderRequest" where
  "make_order qty price side =
     \<lparr> req_id = 1, req_instrument = 0, req_side = side, req_type = Limit,
       req_price = price, req_quantity = qty, req_exchange = 0, req_timestamp = 0 \<rparr>"

definition rate_step :: "Timestamp \<Rightarrow> RiskManager \<Rightarrow> RiskManager" where
  "rate_step now m =
     (if now - rm_rate_window_start m \<ge> ONE_SECOND_NS
      then m\<lparr> rm_rate_window_start := now, rm_order_count_in_window := 1 \<rparr>
      else m\<lparr> rm_order_count_in_window := rm_order_count_in_window m + 1 \<rparr>)"

definition fat_finger_manager :: RiskManager where
  "fat_finger_manager = new_RiskManager id 0 test_limits"

section \<open>SPSC ring buffer (containers/lock\_free\_queue.hpp)\<close>

record 'a LockFreeRingBuffer =
  rb_Capacity :: "64 word"
  rb_head :: "64 word"
  rb_tail :: "64 word"
  rb_buffer :: "'a list"

definition MASK :: "'a LockFreeRingBuffer \<Rightarrow> 64 word" where
  "MASK rb = rb_Capacity rb - 1"

definition new_LockFreeRingBuffer :: "64 word \<Rightarrow> 'a \<Rightarrow> 'a LockFreeRingBuffer" where
  "new_LockFreeRingBuffer Capacity zero =
     \<lparr> rb_Capacity = Capacity, rb_head = 0, rb_tail = 0,
       rb_buffer = replicate (unat Capacity) zero \<rparr>"

definition try_push :: "'a \<Rightarrow> 'a LockFreeRingBuffer \<Rightarrow> bool \<times> 'a LockFreeRingBuffer" where
  "try_push item rb =
     (let current_tail = rb_tail rb;
          next_tail = (current_tail + 1) AND MASK rb
      in if next_tail = rb_head rb then (False, rb)
         else (True, rb\<lparr> rb_buffer := (rb_buffer rb)[unat current_tail := item],
                          rb_tail := next_tail \<rparr>))"

definition try_pop :: "'a LockFreeRingBuffer \<Rightarrow> 'a option \<times> 'a LockFreeRingBuffer" where
  "try_pop rb =
     (let current_head = rb_head rb
      in if current_head = rb_tail rb then (None, rb)
         else (Some (rb_buffer rb ! unat current_head),
               rb\<lparr> rb_head := (current_head + 1) AND MASK rb \<rparr>))"

definition rb_size :: "'a LockFreeRingBuffer \<Rightarrow> nat" where
  "rb_size rb = unat ((rb_tail rb - rb_head rb) AND MASK rb)"

definition rb_capacity :: "'a LockFreeRingBuffer \<Rightarrow> nat" where
  "rb_capacity rb = unat (rb_Capacity rb - 1)"

definition rb_items :: "'a LockFreeRingBuffer \<Rightarrow> 'a list" where
  "rb_items rb =
     map (\<lambda>i. rb_buffer rb ! unat ((rb_head rb + of_nat i) AND MASK rb)) [0..<rb_size rb]"

datatype 'a queue_op = Push 'a | Pop

record 'a queue_trace =
  tr_ring :: "'a LockFreeRingBuffer"
  tr_pushed :: "'a list"
  tr_popped :: "'a list"

fun queue_step :: "'a queue_trace \<Rightarrow> 'a queue_op \<Rightarrow> 'a queue_trace" where
  "queue_step t (Push x) =
     (case try_push x (tr_ring t) of
        (True, rb') \<Rightarrow> t\<lparr> tr_ring := rb', tr_pushed := tr_pushed t @ [x] \<rparr>
      | (False, rb') \<Rightarrow> t\<lparr> tr_ring := rb' \<rparr>)"
| "queue_step t Pop =
     (case try_pop (tr_ring t) of
        (Some y, rb') \<Rightarrow> t\<lparr> tr_ring := rb', tr_popped := tr_popped t @ [y] \<rparr>
      | (None, rb') \<Rightarrow> t\<lparr> tr_ring := rb' \<rparr>)"

definition queue_run :: "64 word \<Rightarrow> 'a \<Rightarrow> 'a queue_op list \<Rightarrow> 'a queue_trace" where
  "queue_run Capacity zero ops =
     foldl queue_step \<lparr> tr_ring = new_LockFreeRingBuffer Capacity zero,
                        tr_pushed = [], tr_popped = [] \<rparr> ops"

definition ring_inv :: "nat \<Rightarrow> 'a LockFreeRingBuffer \<Rightarrow> bool" where
  "ring_inv k rb \<longleftrightarrow>
     k < 64 \<and> rb_Capacity rb = 2 ^ k \<and> unat (rb_head rb) < 2 ^ k \<and> unat (rb_tail rb) < 2 ^ k
     \<and> length (rb_buffer rb) = 2 ^ k"

definition trace_inv :: "nat \<Rightarrow> 'a queue_trace \<Rightarrow> bool" where
  "trace_inv k t \<longleftrightarrow>
     ring_inv k (tr_ring t) \<and> tr_pushed t = tr_popped t @ rb_items (tr_ring t)"

definition demo_ops :: "nat queue_op list" where
  "demo_ops = [Push 1, Push 2, Push 3, Push 4, Pop, Push 5, Pop]"

section \<open>Slab pool (containers/memory\_pool.hpp)\<close>

definition INVALID :: "32 word" where
  "INVALID = 0xFFFFFFFF"

record MemoryPool =
  mp_PoolSize :: nat
  mp_storage :: "nat \<Rightarrow> 32 word"
  mp_free_head :: "32 word"
  mp_allocated_count :: "64 word"

definition init_free_list :: "nat \<Rightarrow> (nat \<Rightarrow> 32 word) \<Rightarrow> (nat \<Rightarrow> 32 word)" where
  "init_free_list PoolSize st =
     (fold (\<lambda>i s. s(i := of_nat (i + 1))) [0..<PoolSize - 1] st)(PoolSize - 1 := INVALID)"

definition new_MemoryPool :: "nat \<Rightarrow> MemoryPool" where
  "new_MemoryPool PoolSize =
     \<lparr> mp_PoolSize = PoolSize, mp_storage = init_free_list PoolSize (\<lambda>i. 0),
       mp_free_head = 0, mp_allocated_count = 0 \<rparr>"

definition allocate :: "MemoryPool \<Rightarrow> nat option \<times> MemoryPool" where
  "allocate p =
     (if mp_free_head p = INVALID then (None, p)
      else let idx = mp_free_head p
           in (Some (unat idx),
               p\<lparr> mp_free_head := mp_storage p (unat idx),
                  mp_allocated_count := mp_allocated_count p + 1 \<rparr>))"

definition deallocate :: "nat option \<Rightarrow> MemoryPool \<Rightarrow> MemoryPool" where
  "deallocate ptr p =
     (case ptr of
        None \<Rightarrow> p
      | Some idx \<Rightarrow>
          p\<lparr> mp_storage := (mp_storage p)(idx := mp_free_head p),
             mp_free_head := of_nat idx,
             mp_allocated_count := mp_allocated_count p - 1 \<rparr>)"

definition owns :: "MemoryPool \<Rightarrow> nat \<Rightarrow> bool" where
  "owns p idx \<longleftrightarrow> idx < mp_PoolSize p"

definition allocated :: "MemoryPool \<Rightarrow> nat" where
  "allocated p = unat (mp_allocated_count p)"

definition available :: "MemoryPool \<Rightarrow> nat" where
  "available p = unat (of_nat (mp_PoolSize p) - mp_allocated_count p)"

definition slot_write :: "nat \<Rightarrow> 32 word \<Rightarrow> MemoryPool \<Rightarrow> MemoryPool" where
  "slot_write idx w p = p\<lparr> mp_storage := (mp_storage p)(idx := w) \<rparr>"

fun free_walk :: "(nat \<Rightarrow> 32 word) \<Rightarrow> nat \<Rightarrow> 32 word \<Rightarrow> nat list" where
  "free_walk st 0 h = []"
| "free_walk st (Suc n) h =
     (if h = INVALID then [] else unat h # free_walk st n (st (unat h)))"

definition free_list :: "MemoryPool \<Rightarrow> nat list" where
  "free_list p = free_walk (mp_storage p) (mp_PoolSize p) (mp_free_head p)"

inductive pool_reach :: "nat \<Rightarrow> MemoryPool \<Rightarrow> nat set \<Rightarrow> bool" for PoolSize :: nat where
  reach_new: "pool_reach PoolSize (new_MemoryPool PoolSize) {}"
| reach_allocate:
    "pool_reach PoolSize p A \<Longrightarrow> allocate p = (Some idx, p') \<Longrightarrow> pool_reach PoolSize p' (insert idx A)"
| reach_exhausted:
    "pool_reach PoolSize p A \<Longrightarrow> allocate p = (None, p') \<Longrightarrow> pool_reach PoolSize p' A"
| reach_deallocate:
    "pool_reach PoolSize p A \<Longrightarrow> idx \<in> A \<Longrightarrow> pool_reach PoolSize (deallocate (Some idx) p) (A - {idx})"
| reach_deallocate_null:
    "pool_reach PoolSize p A \<Longrightarrow> pool_reach PoolSize (deallocate None p) A"
| reach_write:
    "pool_reach PoolSize p A \<Longrightarrow> idx \<in> A \<Longrightarrow> pool_reach PoolSize (slot_write idx w p) A"

fun chain :: "(nat \<Rightarrow> 32 word) \<Rightarrow> 32 word \<Rightarrow> nat list \<Rightarrow> bool" where
  "chain st h [] \<longleftrightarrow> h = INVALID"
| "chain st h (i # is) \<longleftrightarrow> h \<noteq> INVALID \<and> unat h = i \<and> chain st (st i) is"

definition pool_inv :: "nat \<Rightarrow> MemoryPool \<Rightarrow> nat set \<Rightarrow> bool" where
  "pool_inv P p A \<longleftrightarrow>
     mp_PoolSize p = P \<and> A \<subseteq> {i. i < P} \<and> mp_allocated_count p = of_nat (card A)
     \<and> (\<exists>fl. chain (mp_storage p) (mp_free_head p) fl \<and> distinct fl \<and> set fl = {i. i < P} - A)"

definition demo_pool :: MemoryPool where
  "demo_pool = snd (allocate (new_MemoryPool 4))"

section \<open>Properties of the risk gate\<close>

lemma rounding_near:
  assumes "binary64_rounding rnd" "1 / 1024 \<le> x" "x \<le> 1024"
  shows "x - x / 2 ^ 53 \<le> rnd x \<and> rnd x \<le> x + x / 2 ^ 53"
proof -
  have "(1::real) / 2 ^ 1022 \<le> 1 / 2 ^ 10"
    by (intro divide_left_mono power_increasing) simp_all
  then have lo: "1 / 2 ^ 1022 \<le> \<bar>x\<bar>" using assms(2) by simp
  have "(2::real) ^ 10 \<le> 2 ^ 1023"
    by (intro power_increasing) simp_all
  then have hi: "\<bar>x\<bar> \<le> 2 ^ 1023" using assms(2,3) by simp
  from assms(1) lo hi have "\<bar>rnd x - x\<bar> \<le> \<bar>x\<bar> / 2 ^ 53"
    unfolding binary64_rounding_def by blast
  moreover have "\<bar>x\<bar> = x" using assms(2) by simp
  ultimately have "\<bar>rnd x - x\<bar> \<le> x / 2 ^ 53" by simp
  then show ?thesis by linarith
qed

lemma drawdown_exceeds:
  assumes r: "binary64_rounding rnd"
  shows "rnd (rnd (1000 - 970) / 1000) > rnd (2 / 100)"
proof -
  have a: "29 \<le> rnd 30 \<and> rnd 30 \<le> 31"
    using rounding_near [OF r, of 30] by simp
  then have b: "1 / 1024 \<le> rnd 30 / 1000" "rnd 30 / 1000 \<le> 1024" by simp_all
  have c: "rnd 30 / 1000 - (rnd 30 / 1000) / 2 ^ 53 \<le> rnd (rnd 30 / 1000)"
    using rounding_near [OF r b] by simp
  have d: "rnd (2 / 100) \<le> 2 / 100 + (2 / 100) / 2 ^ 53"
    using rounding_near [OF r, of "2 / 100"] by simp
  have "2 / 100 + (2 / 100) / 2 ^ 53 < (29 / 1000 - (31 / 1000) / 2 ^ 53 :: real)" by simp
  also have "\<dots> \<le> rnd 30 / 1000 - (rnd 30 / 1000) / 2 ^ 53" using a by (simp add: field_simps)
  finally show ?thesis using c d by simp
qed

lemma kill_switch_dominates:
  "rm_kill_switch m \<Longrightarrow> fst (check_order rnd now request px m) = KillSwitchActive"
  by (simp add: check_order_def reject_def)

text \<open>
  Claim C8. With the running peak P\&L at 1000.0 and \<^verbatim>\<open>max_drawdown_pct\<close> at 2.0 (so that
  the precomputed threshold is the rounded quotient 2.0 / 100.0), \<^verbatim>\<open>on_pnl_update(970.0)\<close>
  activates the kill switch, for every rounding within the binary64 error bound; and
  whenever the kill switch is active, \<^verbatim>\<open>check_order\<close> returns \<^verbatim>\<open>KillSwitchActive\<close> for
  every request, market price, clock value and state of the other limits.
\<close>

theorem C8_drawdown_kill_switch:
  assumes "binary64_rounding rnd"
    and "rm_peak_pnl m = 1000"
    and "max_drawdown_pct (rm_limits m) = 2"
    and "rm_max_drawdown_threshold m = rnd (max_drawdown_pct (rm_limits m) / 100)"
  shows "rm_kill_switch (on_pnl_update rnd 970 m)
       \<and> (\<forall>m' rnd' now request px.
             rm_kill_switch m' \<longrightarrow> fst (check_order rnd' now request px m') = KillSwitchActive)"
  using assms drawdown_exceeds [OF assms(1)]
  by (simp add: on_pnl_update_def activate_kill_switch_def kill_switch_dominates)

lemma binary64_rounding_id: "binary64_rounding (\<lambda>x. x)"
  by (simp add: binary64_rounding_def)

text \<open>
  The theorem with exact arithmetic as the rounding, on the manager of the unit tests.
\<close>

theorem C8_drawdown_kill_switch_witness:
  "rm_kill_switch (on_pnl_update (\<lambda>x. x) 970 (set_peak_pnl 1000 (new_RiskManager (\<lambda>x. x) 0 test_limits)))
   \<and> fst (check_order (\<lambda>x. x) 5 (make_order 10 15000 Buy) 15000
        (on_pnl_update (\<lambda>x. x) 970 (set_peak_pnl 1000 (new_RiskManager (\<lambda>x. x) 0 test_limits))))
     = KillSwitchActive"
proof -
  let ?m = "set_peak_pnl 1000 (new_RiskManager (\<lambda>x. x) 0 test_limits)"
  have "rm_peak_pnl ?m = 1000" "max_drawdown_pct (rm_limits ?m) = 2"
    "rm_max_drawdown_threshold ?m = (max_drawdown_pct (rm_limits ?m) / 100)"
    by (simp_all add: set_peak_pnl_def new_RiskManager_def update_precomputed_def test_limits_def)
  from C8_drawdown_kill_switch [OF binary64_rounding_id this]
  show ?thesis by blast
qed

lemma fold_abs_zero:
  "\<forall>i \<in> set is. ps ! i = (0::int) \<Longrightarrow> fold (\<lambda>i total. total + \<bar>ps ! i\<bar>) is a = a"
  by (induction "is" arbitrary: a) simp_all

lemma fold_capital_zero:
  "\<forall>i \<in> set is. ps ! i = (0::int) \<Longrightarrow>
     fold (\<lambda>i capital. if ps ! i \<noteq> 0 then f i capital else capital) is a = a"
  by (induction "is" arbitrary: a) simp_all

lemma tracker_reset_position: "position tracker_reset i = 0"
  by (simp add: position_def tracker_reset_def)

lemma tracker_reset_total: "total_absolute_position tracker_reset = 0"
  unfolding total_absolute_position_def
  by (rule fold_abs_zero) (simp add: tracker_reset_def)

lemma tracker_reset_capital: "capital_used rnd tracker_reset = 0"
  unfolding capital_used_def Let_def
  by (rule fold_capital_zero) (simp add: tracker_reset_def)

text \<open>
  Claim C9, as amended. A \<^verbatim>\<open>check_order\<close> call that returns \<^verbatim>\<open>FatFingerPrice\<close> leaves
  the position tracker, the limits, the thresholds, the peak and the kill switch as they
  were, adds one to \<^verbatim>\<open>checks_performed\<close> and to \<^verbatim>\<open>checks_rejected\<close>, and leaves the
  rate limiter as the rate check, which runs before the fat-finger check, has advanced
  it: the in-window count is one more than before, or the window restarts at the current
  time with a count of one when a second has elapsed.
\<close>

theorem C9_fat_finger_frame:
  assumes "check_order rnd now request px m = (FatFingerPrice, m')"
  shows "m' = (rate_step now m)
               \<lparr> rm_checks_performed := rm_checks_performed m + 1,
                 rm_checks_rejected := rm_checks_rejected m + 1 \<rparr>
         \<and> rm_positions m' = rm_positions m"
  using assms
  by (auto simp: check_order_def reject_def rate_step_def Let_def split: if_splits)

lemma fat_finger_run:
  "check_order id 5 (make_order 10 16500 Buy) 15000 fat_finger_manager
   = (FatFingerPrice,
      fat_finger_manager\<lparr> rm_order_count_in_window := 1, rm_checks_performed := 1, rm_checks_rejected := 1 \<rparr>)"
  by (simp add: check_order_def reject_def fat_finger_manager_def new_RiskManager_def
      update_precomputed_def test_limits_def make_order_def tracker_reset_position
      tracker_reset_total tracker_reset_capital ONE_SECOND_NS_def PRICE_SCALE_def Let_def)

text \<open>
  Claim C9 as stated fails on the scenario it names: market price 15000, deviation limit
  5 per cent, order price 16500. The call returns \<^verbatim>\<open>FatFingerPrice\<close> and the in-window
  order count has changed.
\<close>

theorem C9_fat_finger_frame_counterexample:
  "fst (check_order id 5 (make_order 10 16500 Buy) 15000 fat_finger_manager) = FatFingerPrice
   \<and> rm_order_count_in_window (snd (check_order id 5 (make_order 10 16500 Buy) 15000 fat_finger_manager))
     \<noteq> rm_order_count_in_window fat_finger_manager"
  by (simp add: fat_finger_run) (simp add: fat_finger_manager_def new_RiskManager_def update_precomputed_def)

text \<open>
  The amended theorem on the same scenario.
\<close>

theorem C9_fat_finger_frame_witness:
  "check_order id 5 (make_order 10 16500 Buy) 15000 fat_finger_manager
     = (FatFingerPrice,
        fat_finger_manager\<lparr> rm_order_count_in_window := 1, rm_checks_performed := 1,
                            rm_checks_rejected := 1 \<rparr>)
   \<and> fat_finger_manager\<lparr> rm_order_count_in_window := 1, rm_checks_performed := 1,
                          rm_checks_rejected := 1 \<rparr>
     = (rate_step 5 fat_finger_manager)
         \<lparr> rm_checks_performed := rm_checks_performed fat_finger_manager + 1,
           rm_checks_rejected := rm_checks_rejected fat_finger_manager + 1 \<rparr>"
  using C9_fat_finger_frame [OF fat_finger_run] fat_finger_run by blast

section \<open>The ring buffer as a FIFO queue\<close>

lemma unat_and_mask_pow2:
  "unat ((w::64 word) AND (2 ^ k - 1)) = unat w mod 2 ^ k"
proof -
  have "w AND (2 ^ k - 1) = take_bit k w"
    by (simp add: take_bit_eq_mask mask_eq_decr_exp)
  then have "unat (w AND (2 ^ k - 1)) = take_bit k (unat w)"
    by (simp only: unsigned_take_bit_eq)
  then show ?thesis by (simp add: take_bit_eq_mod)
qed

lemma unat_pow2:
  assumes "k < 64"
  shows "unat ((2::64 word) ^ k) = 2 ^ k"
proof -
  have a: "(2::64 word) ^ k = of_nat (2 ^ k)" by simp
  have "(2::nat) ^ k < 2 ^ LENGTH(64)"
    using assms by (intro power_strict_increasing) simp_all
  then show ?thesis unfolding a unat_of_nat by (rule mod_less)
qed

lemma mod_below_twice: "(x::nat) < 2 * n \<Longrightarrow> x mod n = (if x < n then x else x - n)"
  by (simp add: mod_if)

lemma pow2_dvd_word_size: "k < 64 \<Longrightarrow> (2::nat) ^ k dvd 2 ^ LENGTH(64)"
  by (rule le_imp_power_dvd) simp

lemma unat_mask_sum:
  assumes "k < 64"
  shows "unat (((a::64 word) + b) AND (2 ^ k - 1)) = (unat a + unat b) mod 2 ^ k"
  by (simp only: unat_and_mask_pow2 unat_word_ariths mod_mod_cancel [OF pow2_dvd_word_size [OF assms]])

lemma unat_next_index:
  assumes "k < 64" "unat (x::64 word) < 2 ^ k"
  shows "unat ((x + 1) AND (2 ^ k - 1)) = (if unat x + 1 < 2 ^ k then unat x + 1 else 0)"
proof -
  have "unat ((x + 1) AND (2 ^ k - 1)) = (unat x + 1) mod 2 ^ k"
    using unat_mask_sum [OF assms(1), of x 1] by simp
  also have "\<dots> = (if unat x + 1 < 2 ^ k then unat x + 1 else unat x + 1 - 2 ^ k)"
    using assms(2) by (intro mod_below_twice) simp
  finally show ?thesis using assms(2) by auto
qed

lemma unat_offset_index:
  assumes "k < 64" "unat (h::64 word) < 2 ^ k" "i < 2 ^ k"
  shows "unat ((h + of_nat i) AND (2 ^ k - 1))
         = (if unat h + i < 2 ^ k then unat h + i else unat h + i - 2 ^ k)"
proof -
  have "(2::nat) ^ k < 2 ^ LENGTH(64)" using assms(1) by (intro power_strict_increasing) simp_all
  then have "i < 2 ^ LENGTH(64)" using assms(3) by (rule less_trans [rotated])
  then have "unat (of_nat i :: 64 word) = i" by (simp add: unat_of_nat)
  then have "unat ((h + of_nat i) AND (2 ^ k - 1)) = (unat h + i) mod 2 ^ k"
    using unat_mask_sum [OF assms(1), of h "of_nat i"] by simp
  also have "\<dots> = (if unat h + i < 2 ^ k then unat h + i else unat h + i - 2 ^ k)"
    using assms(2,3) by (intro mod_below_twice) simp
  finally show ?thesis .
qed

lemma unat_distance:
  assumes "k < 64" "unat (h::64 word) < 2 ^ k" "unat (t::64 word) < 2 ^ k"
  shows "unat ((t - h) AND (2 ^ k - 1))
         = (if unat h \<le> unat t then unat t - unat h else unat t + 2 ^ k - unat h)"
proof (cases "unat h \<le> unat t")
  case True
  then have "unat (t - h) = unat t - unat h" by (simp add: unat_sub_if')
  then show ?thesis using True assms(3) by (simp add: unat_and_mask_pow2)
next
  case False
  obtain q :: nat where q: "(2::nat) ^ LENGTH(64) = 2 ^ k * q"
    using pow2_dvd_word_size [OF assms(1)] by (auto simp: dvd_def)
  have "q \<noteq> 0" using q by (cases "q = 0") simp_all
  then obtain r where r: "q = Suc r" by (cases q) simp_all
  have "unat (t - h) = unat t + 2 ^ LENGTH(64) - unat h"
    using False by (simp add: unat_sub_if')
  also have "\<dots> = (unat t + 2 ^ k - unat h) + 2 ^ k * r"
    using assms(2) unfolding q r by simp
  finally have "unat (t - h) mod 2 ^ k = (unat t + 2 ^ k - unat h) mod 2 ^ k"
    by simp
  moreover have "unat t + 2 ^ k - unat h < 2 ^ k" using False assms(2) by simp
  ultimately show ?thesis using False by (simp add: unat_and_mask_pow2)
qed


lemma ring_size_nat:
  assumes "ring_inv k rb"
  shows "rb_size rb = (if unat (rb_head rb) \<le> unat (rb_tail rb)
                       then unat (rb_tail rb) - unat (rb_head rb)
                       else unat (rb_tail rb) + 2 ^ k - unat (rb_head rb))"
  using assms unat_distance [of k "rb_head rb" "rb_tail rb"]
  by (simp add: ring_inv_def rb_size_def MASK_def)

lemma ring_size_bound:
  assumes "ring_inv k rb"
  shows "rb_size rb < 2 ^ k"
  using assms by (auto simp: ring_size_nat [OF assms] ring_inv_def)

lemma ring_items_nat:
  assumes "ring_inv k rb"
  shows "rb_items rb =
         map (\<lambda>i. rb_buffer rb ! (if unat (rb_head rb) + i < 2 ^ k then unat (rb_head rb) + i
                                      else unat (rb_head rb) + i - 2 ^ k))
             [0..<rb_size rb]"
proof -
  have "unat ((rb_head rb + of_nat i) AND MASK rb)
        = (if unat (rb_head rb) + i < 2 ^ k then unat (rb_head rb) + i
           else unat (rb_head rb) + i - 2 ^ k)" if "i < rb_size rb" for i
  proof -
    have "i < 2 ^ k" using that ring_size_bound [OF assms] by simp
    then show ?thesis
      using assms unat_offset_index [of k "rb_head rb" i] by (simp add: ring_inv_def MASK_def)
  qed
  then show ?thesis by (simp add: rb_items_def)
qed

lemma ring_items_nth:
  assumes "ring_inv k rb" "i < rb_size rb"
  shows "rb_items rb ! i =
         rb_buffer rb ! (if unat (rb_head rb) + i < 2 ^ k then unat (rb_head rb) + i
                         else unat (rb_head rb) + i - 2 ^ k)"
  using assms(2) by (simp add: ring_items_nat [OF assms(1)] del: upt_Suc)

lemma ring_length_items: "length (rb_items rb) = rb_size rb"
  by (simp add: rb_items_def)

lemma ring_capacity: "ring_inv k rb \<Longrightarrow> rb_capacity rb = 2 ^ k - 1"
  by (simp add: ring_inv_def rb_capacity_def unat_minus_one unat_pow2)

lemma ring_next_tail:
  assumes "ring_inv k rb"
  shows "unat ((rb_tail rb + 1) AND MASK rb)
         = (if unat (rb_tail rb) + 1 < 2 ^ k then unat (rb_tail rb) + 1 else 0)"
  using assms unat_next_index [of k "rb_tail rb"] by (simp add: ring_inv_def MASK_def)

lemma ring_next_head:
  assumes "ring_inv k rb"
  shows "unat ((rb_head rb + 1) AND MASK rb)
         = (if unat (rb_head rb) + 1 < 2 ^ k then unat (rb_head rb) + 1 else 0)"
  using assms unat_next_index [of k "rb_head rb"] by (simp add: ring_inv_def MASK_def)

lemma try_push_full_iff:
  assumes "ring_inv k rb"
  shows "\<not> fst (try_push x rb) \<longleftrightarrow> rb_size rb = 2 ^ k - 1"
proof -
  have "(rb_tail rb + 1) AND MASK rb = rb_head rb
        \<longleftrightarrow> unat ((rb_tail rb + 1) AND MASK rb) = unat (rb_head rb)"
    by (simp add: word_unat_eq_iff)
  then show ?thesis
    using assms
    by (auto simp: try_push_def Let_def ring_next_tail [OF assms] ring_size_nat [OF assms]
        ring_inv_def split: if_splits)
qed

lemma try_pop_empty_iff:
  assumes "ring_inv k rb"
  shows "fst (try_pop rb) = None \<longleftrightarrow> rb_size rb = 0"
proof -
  have "rb_head rb = rb_tail rb \<longleftrightarrow> unat (rb_head rb) = unat (rb_tail rb)"
    by (simp add: word_unat_eq_iff)
  then show ?thesis
    using assms
    by (auto simp: try_pop_def Let_def ring_size_nat [OF assms] ring_inv_def split: if_splits)
qed


lemma new_ring_inv: "k < 64 \<Longrightarrow> ring_inv k (new_LockFreeRingBuffer (2 ^ k) z)"
  by (simp add: ring_inv_def new_LockFreeRingBuffer_def unat_pow2)

lemma new_ring_items: "k < 64 \<Longrightarrow> rb_items (new_LockFreeRingBuffer (2 ^ k) z) = []"
  by (simp add: rb_items_def rb_size_def new_LockFreeRingBuffer_def)

lemma try_push_items:
  assumes inv: "ring_inv k rb" and push: "try_push x rb = (True, rb')"
  shows "ring_inv k rb' \<and> rb_items rb' = rb_items rb @ [x]"
proof -
  let ?h = "unat (rb_head rb)" and ?t = "unat (rb_tail rb)" and ?n = "(2::nat) ^ k"
  have ne: "(rb_tail rb + 1) AND MASK rb \<noteq> rb_head rb"
    and rb': "rb' = rb\<lparr> rb_buffer := (rb_buffer rb)[?t := x],
                          rb_tail := (rb_tail rb + 1) AND MASK rb \<rparr>"
    using push by (auto simp: try_push_def Let_def split: if_splits)
  have bounds: "?h < ?n" "?t < ?n" "length (rb_buffer rb) = ?n"
    using inv by (simp_all add: ring_inv_def)
  have nt: "unat (rb_tail rb') = (if ?t + 1 < ?n then ?t + 1 else 0)"
    using ring_next_tail [OF inv] by (simp add: rb')
  have neq: "(if ?t + 1 < ?n then ?t + 1 else 0) \<noteq> ?h"
    using ne ring_next_tail [OF inv] by (metis word_unat_eq_iff)
  have inv': "ring_inv k rb'"
    using inv nt bounds by (auto simp: ring_inv_def rb')
  have sz: "rb_size rb' = Suc (rb_size rb)"
    using neq bounds nt
    by (simp add: ring_size_nat [OF inv'] ring_size_nat [OF inv]) (auto simp: rb' split: if_splits)
  have "rb_items rb' ! i = (rb_items rb @ [x]) ! i" if "i < Suc (rb_size rb)" for i
  proof (cases "i < rb_size rb")
    case True
    have i': "i < rb_size rb'" using that sz by simp
    have "unat (rb_head rb') = ?h" "rb_buffer rb' = (rb_buffer rb)[?t := x]"
      by (simp_all add: rb')
    then show ?thesis
      using bounds True ring_items_nth [OF inv' i'] ring_items_nth [OF inv True]
      by (auto simp: nth_append ring_length_items ring_size_nat [OF inv] split: if_splits)
  next
    case False
    then have e: "i = rb_size rb" using that by simp
    have i': "i < rb_size rb'" using that sz by simp
    have "unat (rb_head rb') = ?h" "rb_buffer rb' = (rb_buffer rb)[?t := x]"
      by (simp_all add: rb')
    then show ?thesis
      using bounds neq ring_items_nth [OF inv' i']
      by (auto simp: e nth_append ring_length_items ring_size_nat [OF inv] split: if_splits)
  qed
  then have "rb_items rb' = rb_items rb @ [x]"
    by (intro nth_equalityI) (simp_all add: ring_length_items sz)
  with inv' show ?thesis by simp
qed

lemma try_pop_items:
  assumes inv: "ring_inv k rb" and pop: "try_pop rb = (Some y, rb')"
  shows "ring_inv k rb' \<and> rb_items rb = y # rb_items rb'"
proof -
  let ?h = "unat (rb_head rb)" and ?t = "unat (rb_tail rb)" and ?n = "(2::nat) ^ k"
  have ne: "rb_head rb \<noteq> rb_tail rb"
    and y: "y = rb_buffer rb ! ?h"
    and rb': "rb' = rb\<lparr> rb_head := (rb_head rb + 1) AND MASK rb \<rparr>"
    using pop by (auto simp: try_pop_def Let_def split: if_splits)
  have bounds: "?h < ?n" "?t < ?n" "length (rb_buffer rb) = ?n"
    using inv by (simp_all add: ring_inv_def)
  have nh: "unat (rb_head rb') = (if ?h + 1 < ?n then ?h + 1 else 0)"
    using ring_next_head [OF inv] by (simp add: rb')
  have neq: "?h \<noteq> ?t" using ne by (simp add: word_unat_eq_iff)
  have inv': "ring_inv k rb'"
    using inv nh bounds by (auto simp: ring_inv_def rb')
  have sz: "rb_size rb = Suc (rb_size rb')"
    using neq bounds nh
    by (simp add: ring_size_nat [OF inv'] ring_size_nat [OF inv]) (auto simp: rb' split: if_splits)
  have "rb_items rb ! i = (y # rb_items rb') ! i" if "i < Suc (rb_size rb')" for i
  proof (cases i)
    case 0
    then show ?thesis using bounds ring_items_nth [OF inv, of 0] by (simp add: sz y)
  next
    case (Suc j)
    then have j: "j < rb_size rb'" and i: "i < rb_size rb" using that sz by simp_all
    have jn: "j < ?n" using j ring_size_bound [OF inv'] by simp
    have idx: "(if ?h + i < ?n then ?h + i else ?h + i - ?n)
               = (if unat (rb_head rb') + j < ?n then unat (rb_head rb') + j
                  else unat (rb_head rb') + j - ?n)"
      using bounds jn unfolding nh Suc by (auto split: if_splits)
    have "rb_buffer rb' = rb_buffer rb" by (simp add: rb')
    then show ?thesis
      using ring_items_nth [OF inv' j] ring_items_nth [OF inv i] idx Suc by simp
  qed
  then have "rb_items rb = y # rb_items rb'"
    by (intro nth_equalityI) (simp_all add: ring_length_items sz)
  with inv' show ?thesis by simp
qed


lemma queue_step_inv:
  assumes "trace_inv k t"
  shows "trace_inv k (queue_step t op)"
proof (cases op)
  case (Push x)
  obtain b rb' where p: "try_push x (tr_ring t) = (b, rb')" by (cases "try_push x (tr_ring t)")
  show ?thesis
  proof (cases b)
    case True
    with p try_push_items [of k "tr_ring t" x rb'] assms show ?thesis
      by (simp add: Push trace_inv_def)
  next
    case False
    with p have "rb' = tr_ring t" by (auto simp: try_push_def Let_def split: if_splits)
    with p False assms show ?thesis by (simp add: Push trace_inv_def)
  qed
next
  case Pop
  obtain r rb' where p: "try_pop (tr_ring t) = (r, rb')" by (cases "try_pop (tr_ring t)")
  show ?thesis
  proof (cases r)
    case None
    with p have "rb' = tr_ring t" by (auto simp: try_pop_def Let_def split: if_splits)
    with p None assms show ?thesis by (simp add: Pop trace_inv_def)
  next
    case (Some y)
    with p try_pop_items [of k "tr_ring t" y rb'] assms show ?thesis
      by (simp add: Pop trace_inv_def)
  qed
qed

lemma foldl_queue_step_inv: "trace_inv k t \<Longrightarrow> trace_inv k (foldl queue_step t ops)"
  by (induction ops arbitrary: t) (simp_all add: queue_step_inv)

lemma queue_run_inv: "k < 64 \<Longrightarrow> trace_inv k (queue_run (2 ^ k) z ops)"
  unfolding queue_run_def
  by (rule foldl_queue_step_inv) (simp add: trace_inv_def new_ring_inv new_ring_items)

text \<open>
  Claim C6. A ring buffer of capacity \<open>N = 2 ^ k\<close>, driven from its initial state by any
  sequence of \<^verbatim>\<open>try_push\<close> and \<^verbatim>\<open>try_pop\<close> calls on one thread: \<^verbatim>\<open>try_push\<close> fails
  exactly when the buffer holds \<open>N - 1\<close> items, which is what \<^verbatim>\<open>capacity()\<close> returns;
  \<^verbatim>\<open>try_pop\<close> fails exactly when it holds none; \<^verbatim>\<open>size()\<close> is the number of items held;
  and the values pushed so far are the values popped so far, in the same order, followed
  by the items still held.
\<close>

theorem C6_spsc_ring_fifo:
  assumes "k < 64"
  shows "(\<forall>x. \<not> fst (try_push x (tr_ring (queue_run (2 ^ k) z ops)))
              \<longleftrightarrow> length (rb_items (tr_ring (queue_run (2 ^ k) z ops))) = 2 ^ k - 1)
       \<and> (fst (try_pop (tr_ring (queue_run (2 ^ k) z ops))) = None
              \<longleftrightarrow> rb_items (tr_ring (queue_run (2 ^ k) z ops)) = [])
       \<and> rb_capacity (tr_ring (queue_run (2 ^ k) z ops)) = 2 ^ k - 1
       \<and> rb_size (tr_ring (queue_run (2 ^ k) z ops))
           = length (rb_items (tr_ring (queue_run (2 ^ k) z ops)))
       \<and> tr_pushed (queue_run (2 ^ k) z ops)
           = tr_popped (queue_run (2 ^ k) z ops) @ rb_items (tr_ring (queue_run (2 ^ k) z ops))"
proof -
  let ?t = "queue_run (2 ^ k) z ops"
  have inv: "ring_inv k (tr_ring ?t)"
    and fifo: "tr_pushed ?t = tr_popped ?t @ rb_items (tr_ring ?t)"
    using queue_run_inv [OF assms, of z ops] by (simp_all add: trace_inv_def)
  have "rb_items (tr_ring ?t) = [] \<longleftrightarrow> rb_size (tr_ring ?t) = 0"
    using ring_length_items [of "tr_ring ?t"] by (metis length_0_conv)
  then show ?thesis
    using try_push_full_iff [OF inv] try_pop_empty_iff [OF inv] ring_capacity [OF inv] fifo
    by (simp add: ring_length_items)
qed

text \<open>
  The theorem at \<open>N = 4\<close>: the fourth push is refused, the pops return the first two
  values pushed, and the buffer then has room again.
\<close>

theorem C6_spsc_ring_fifo_witness:
  "(2::nat) < 64
   \<and> tr_popped (queue_run (2 ^ 2) 0 demo_ops) = [1, 2]
   \<and> tr_pushed (queue_run (2 ^ 2) 0 demo_ops) = [1, 2, 3, 5]
   \<and> rb_items (tr_ring (queue_run (2 ^ 2) 0 demo_ops)) = [3, 5]
   \<and> fst (try_push 6 (tr_ring (queue_run (2 ^ 2) 0 demo_ops)))"
proof -
  have a: "tr_popped (queue_run (2 ^ 2) 0 demo_ops) = [1, 2]"
    and b: "tr_pushed (queue_run (2 ^ 2) 0 demo_ops) = [1, 2, 3, 5]"
    by (simp_all add: demo_ops_def queue_run_def new_LockFreeRingBuffer_def try_push_def
        try_pop_def MASK_def Let_def)
  have k: "(2::nat) < 64" by simp
  note c = C6_spsc_ring_fifo [OF k, of 0 demo_ops]
  from c have items: "rb_items (tr_ring (queue_run (2 ^ 2) 0 demo_ops)) = [3, 5]"
    unfolding a b by simp
  from c have "fst (try_push 6 (tr_ring (queue_run (2 ^ 2) 0 demo_ops)))"
    unfolding items by simp
  with a b items k show ?thesis by simp
qed

section \<open>Conservation and reuse in the slab pool\<close>

lemma init_fold_apply:
  "fold (\<lambda>i s. s(i := of_nat (i + 1))) [0..<n] st j = (if j < n then of_nat (j + 1) else st j)"
  by (induction n arbitrary: st) auto

lemma init_free_list_apply:
  "0 < P \<Longrightarrow> init_free_list P st j
     = (if j < P - 1 then of_nat (j + 1) else if j = P - 1 then INVALID else st j)"
  unfolding init_free_list_def by (simp only: init_fold_apply fun_upd_apply) auto

lemma slot_index_word:
  assumes "i < 4294967295"
  shows "unat (of_nat i :: 32 word) = i" and "(of_nat i :: 32 word) \<noteq> INVALID"
proof -
  show a: "unat (of_nat i :: 32 word) = i" using assms by (simp add: unat_of_nat)
  show "(of_nat i :: 32 word) \<noteq> INVALID"
  proof
    assume "(of_nat i :: 32 word) = INVALID"
    then have "unat (of_nat i :: 32 word) = unat INVALID" by simp
    then show False using a assms by (simp add: INVALID_def)
  qed
qed

lemma chain_walk: "chain st h fl \<Longrightarrow> length fl \<le> n \<Longrightarrow> free_walk st n h = fl"
proof (induction fl arbitrary: h n)
  case Nil
  then show ?case by (cases n) simp_all
next
  case (Cons i fl)
  then show ?case by (cases n) simp_all
qed

lemma chain_update: "i \<notin> set fl \<Longrightarrow> chain (st(i := w)) h fl = chain st h fl"
  by (induction fl arbitrary: h) auto

lemma chain_init:
  assumes "0 < P" "P \<le> 4294967295"
  shows "i < P \<Longrightarrow> chain (init_free_list P st) (of_nat i) [i..<P]"
proof (induction "P - i" arbitrary: i)
  case 0
  then show ?case by simp
next
  case (Suc d)
  have i: "i < 4294967295" using Suc.prems assms by simp
  have up: "[i..<P] = i # [Suc i..<P]" using Suc.prems by (simp add: upt_conv_Cons)
  show ?case
  proof (cases "Suc i < P")
    case True
    then have "chain (init_free_list P st) (of_nat (Suc i)) [Suc i..<P]"
      using Suc.hyps by (intro Suc.hyps(1)) simp_all
    moreover have "init_free_list P st i = of_nat (i + 1)"
      using True by (subst init_free_list_apply [OF assms(1)]) auto
    ultimately show ?thesis using slot_index_word [OF i] by (simp add: up)
  next
    case False
    then have "P = Suc i" using Suc.prems by simp
    then have e: "[i..<P] = [i]" by simp
    have "init_free_list P st i = INVALID"
      using \<open>P = Suc i\<close> by (subst init_free_list_apply [OF assms(1)]) auto
    then show ?thesis using slot_index_word [OF i] unfolding e by simp
  qed
qed

lemma new_pool_inv:
  assumes "0 < P" "P \<le> 4294967295"
  shows "pool_inv P (new_MemoryPool P) {}"
proof -
  have "chain (init_free_list P (\<lambda>i. 0)) (of_nat 0) [0..<P]"
    using assms by (intro chain_init) simp_all
  then show ?thesis
    unfolding pool_inv_def new_MemoryPool_def by (auto intro!: exI [of _ "[0..<P]"])
qed

lemma pool_inv_finite:
  assumes "pool_inv P p A"
  shows "finite A"
proof -
  have "A \<subseteq> {i. i < P}" using assms unfolding pool_inv_def by blast
  then show ?thesis by (rule finite_subset) simp
qed

lemma allocate_inv:
  assumes "pool_inv P p A" "allocate p = (Some idx, p')"
  shows "pool_inv P p' (insert idx A) \<and> idx \<notin> A \<and> idx < P"
proof -
  obtain fl where fl: "chain (mp_storage p) (mp_free_head p) fl" "distinct fl"
      "set fl = {i. i < P} - A"
    using assms(1) unfolding pool_inv_def by blast
  have ne: "mp_free_head p \<noteq> INVALID" and idx: "idx = unat (mp_free_head p)"
    and p': "p' = p\<lparr> mp_free_head := mp_storage p idx,
                        mp_allocated_count := mp_allocated_count p + 1 \<rparr>"
    using assms(2) by (auto simp: allocate_def Let_def split: if_splits)
  obtain fl' where fl': "fl = idx # fl'" "chain (mp_storage p) (mp_storage p idx) fl'"
    using fl(1) ne idx by (cases fl) auto
  have in_set: "idx \<in> {i. i < P} - A" using fl(3) fl'(1) by auto
  have "set fl' = {i. i < P} - insert idx A" using fl(2,3) fl'(1) by auto
  moreover have "card (insert idx A) = Suc (card A)"
    using in_set pool_inv_finite [OF assms(1)] by simp
  ultimately show ?thesis
    using assms(1) fl(2) fl' in_set
    unfolding pool_inv_def p' by auto
qed

lemma allocate_none: "allocate p = (None, p') \<Longrightarrow> p' = p"
  by (auto simp: allocate_def Let_def split: if_splits)

lemma deallocate_inv:
  assumes "P \<le> 4294967295" "pool_inv P p A" "idx \<in> A"
  shows "pool_inv P (deallocate (Some idx) p) (A - {idx})"
proof -
  obtain fl where fl: "chain (mp_storage p) (mp_free_head p) fl" "distinct fl"
      "set fl = {i. i < P} - A"
    using assms(2) unfolding pool_inv_def by blast
  have lt: "idx < P" using assms(2,3) unfolding pool_inv_def by auto
  then have w: "unat (of_nat idx :: 32 word) = idx" "(of_nat idx :: 32 word) \<noteq> INVALID"
    using slot_index_word [of idx] assms(1) by simp_all
  have notin: "idx \<notin> set fl" using fl(3) assms(3) by simp
  have "chain ((mp_storage p)(idx := mp_free_head p)) (of_nat idx) (idx # fl)"
    using w fl(1) notin by (simp add: chain_update)
  moreover have "distinct (idx # fl)" using fl(2) notin by simp
  moreover have "set (idx # fl) = {i. i < P} - (A - {idx})" using fl(3) lt assms(3) by auto
  moreover have "0 < card A" using assms(3) pool_inv_finite [OF assms(2)] by (auto simp: card_gt_0_iff)
  then have "(of_nat (card A) :: 64 word) - 1 = of_nat (card (A - {idx}))"
    using assms(3) pool_inv_finite [OF assms(2)] by (cases "card A") simp_all
  ultimately show ?thesis
    using assms(2) unfolding pool_inv_def deallocate_def by (auto intro!: exI [of _ "idx # fl"])
qed

lemma slot_write_inv:
  assumes "pool_inv P p A" "idx \<in> A"
  shows "pool_inv P (slot_write idx w p) A"
proof -
  obtain fl where fl: "chain (mp_storage p) (mp_free_head p) fl" "distinct fl"
      "set fl = {i. i < P} - A"
    using assms(1) unfolding pool_inv_def by blast
  have "idx \<notin> set fl" using fl(3) assms(2) by simp
  then have "chain ((mp_storage p)(idx := w)) (mp_free_head p) fl"
    using fl(1) by (simp add: chain_update)
  then show ?thesis using assms(1) fl unfolding pool_inv_def slot_write_def by auto
qed

lemma pool_reach_inv:
  assumes "0 < P" "P \<le> 4294967295"
  shows "pool_reach P p A \<Longrightarrow> pool_inv P p A"
proof (induction rule: pool_reach.induct)
  case reach_new
  show ?case using assms by (rule new_pool_inv)
next
  case (reach_allocate p A idx p')
  then show ?case using allocate_inv by blast
next
  case (reach_exhausted p A p')
  then show ?case using allocate_none by blast
next
  case (reach_deallocate p A idx)
  then show ?case using deallocate_inv [OF assms(2)] by blast
next
  case (reach_deallocate_null p A)
  then show ?case by (simp add: deallocate_def)
next
  case (reach_write p A idx w)
  then show ?case using slot_write_inv by blast
qed


lemma pool_inv_free_list:
  assumes "pool_inv P p A"
  shows "distinct (free_list p) \<and> set (free_list p) = {i. i < P} - A"
proof -
  obtain fl where fl: "chain (mp_storage p) (mp_free_head p) fl" "distinct fl"
      "set fl = {i. i < P} - A"
    using assms unfolding pool_inv_def by blast
  have "length fl = card (set fl)" using fl(2) by (simp add: distinct_card)
  also have "\<dots> \<le> card {i. i < P}" unfolding fl(3) by (intro card_mono) auto
  finally have "length fl \<le> P" by simp
  moreover have "mp_PoolSize p = P" using assms unfolding pool_inv_def by blast
  ultimately have "free_list p = fl"
    unfolding free_list_def using chain_walk [OF fl(1)] by simp
  then show ?thesis using fl by simp
qed

lemma pool_inv_counts:
  assumes "P \<le> 4294967295" "pool_inv P p A"
  shows "allocated p = card A \<and> available p = P - card A"
proof -
  have sub: "A \<subseteq> {i. i < P}" and cnt: "mp_allocated_count p = of_nat (card A)"
    and sz: "mp_PoolSize p = P"
    using assms(2) unfolding pool_inv_def by blast+
  have "card A \<le> card {i. i < P}" using sub by (intro card_mono) auto
  then have le: "card A \<le> P" by simp
  then have "card A < 2 ^ LENGTH(64)" "P - card A < 2 ^ LENGTH(64)" using assms(1) by simp_all
  then have a: "unat (of_nat (card A) :: 64 word) = card A"
    and b: "unat (of_nat (P - card A) :: 64 word) = P - card A"
    by (simp_all add: unat_of_nat)
  have "(of_nat P :: 64 word) - of_nat (card A) = of_nat (P - card A)"
    using le by simp
  then show ?thesis using a b by (simp add: allocated_def available_def cnt sz)
qed

lemma reuse_after_free:
  assumes "idx < 4294967295"
  shows "fst (allocate (deallocate (Some idx) p)) = Some idx"
  using slot_index_word [OF assms] by (simp add: allocate_def deallocate_def Let_def)

text \<open>
  Claim C7. For a pool of capacity \<open>P\<close> (at least one slot, and fewer than the 32-bit
  sentinel \<^verbatim>\<open>INVALID\<close>), in every state reached under the discipline that only
  allocated slots are deallocated or written by the client, with \<open>A\<close> the set of slots
  handed out and not yet freed: \<^verbatim>\<open>allocated() + available()\<close> is \<open>P\<close>, \<^verbatim>\<open>allocated()\<close>
  counts \<open>A\<close>, the free list holds exactly the slots outside \<open>A\<close>, each once, and
  allocating right after deallocating a slot returns that same slot.
\<close>

theorem C7_slab_pool_conservation:
  assumes "0 < P" "P \<le> 4294967295" "pool_reach P p A"
  shows "allocated p + available p = P
       \<and> allocated p = card A
       \<and> distinct (free_list p) \<and> set (free_list p) = {i. i < P} - A
       \<and> (\<forall>idx \<in> A. fst (allocate (deallocate (Some idx) p)) = Some idx)"
proof -
  have inv: "pool_inv P p A" using assms by (rule pool_reach_inv)
  have sub: "A \<subseteq> {i. i < P}" using inv unfolding pool_inv_def by blast
  have "card A \<le> card {i. i < P}" using sub by (intro card_mono) auto
  then have "allocated p + available p = P"
    using pool_inv_counts [OF assms(2) inv] by simp
  moreover have "fst (allocate (deallocate (Some idx) p)) = Some idx" if "idx \<in> A" for idx
  proof -
    have "idx < 4294967295" using that sub assms(2) by auto
    then show ?thesis by (rule reuse_after_free)
  qed
  ultimately show ?thesis
    using pool_inv_counts [OF assms(2) inv] pool_inv_free_list [OF inv] by blast
qed

text \<open>
  The theorem on a pool of four slots after one allocation.
\<close>

theorem C7_slab_pool_conservation_witness:
  "(0::nat) < 4 \<and> (4::nat) \<le> 4294967295 \<and> pool_reach 4 demo_pool {0}
   \<and> allocated demo_pool + available demo_pool = 4
   \<and> allocated demo_pool = 1
   \<and> set (free_list demo_pool) = {1, 2, 3}
   \<and> fst (allocate (deallocate (Some 0) demo_pool)) = Some 0"
proof -
  have a: "allocate (new_MemoryPool 4) = (Some 0, demo_pool)"
    by (simp add: demo_pool_def allocate_def new_MemoryPool_def INVALID_def Let_def)
  have r: "pool_reach 4 demo_pool {0}"
    using reach_allocate [OF reach_new a] by simp
  have s: "{i. i < (4::nat)} - {0} = {1, 2, 3}" by auto
  from C7_slab_pool_conservation [OF _ _ r] r show ?thesis by (simp add: s)
qed

end
